theory Spec2Isabelle
  imports Main "HOL-Library.Word"
begin

unbundle bit_operations_syntax

section \<open>Machine types\<close>

type_synonym uint32 = "32 word"
type_synonym uint64 = "64 word"

text \<open>
  The NEON register types of \<open>arm_neon.h\<close>: a \<open>uint32x4_t\<close> holds four 32-bit lanes,
  a \<open>uint32x2_t\<close> two, a \<open>uint64x2_t\<close> two 64-bit lanes. Lane 0 is the leftmost component.
\<close>

type_synonym uint32x2 = "uint32 \<times> uint32"
type_synonym uint32x4 = "uint32 \<times> uint32 \<times> uint32 \<times> uint32"
type_synonym uint64x2 = "uint64 \<times> uint64"

definition UINT32_MAX :: uint64 where
  "UINT32_MAX = 0xFFFFFFFF"

section \<open>The NEON intrinsics used by the source\<close>

text \<open>A comparison intrinsic sets every bit of a lane that satisfies the test and clears the others.\<close>

definition lane_mask :: "bool \<Rightarrow> uint32" where
  "lane_mask b = (if b then 0xFFFFFFFF else 0)"

definition vdupq_n_u32 :: "uint32 \<Rightarrow> uint32x4" where
  "vdupq_n_u32 x = (x, x, x, x)"

fun vget_low_u32 :: "uint32x4 \<Rightarrow> uint32x2" where
  "vget_low_u32 (a, b, c, d) = (a, b)"

fun vget_high_u32 :: "uint32x4 \<Rightarrow> uint32x2" where
  "vget_high_u32 (a, b, c, d) = (c, d)"

fun vcombine_u32 :: "uint32x2 \<Rightarrow> uint32x2 \<Rightarrow> uint32x4" where
  "vcombine_u32 (a, b) (c, d) = (a, b, c, d)"

text \<open>Widening multiply: each pair of 32-bit lanes gives the full 64-bit product.\<close>

fun vmull_u32 :: "uint32x2 \<Rightarrow> uint32x2 \<Rightarrow> uint64x2" where
  "vmull_u32 (a, b) (c, d) = (ucast a * ucast c, ucast b * ucast d)"

text \<open>Shift right by \<open>k\<close> and narrow: each 64-bit lane is shifted, then truncated to 32 bits.\<close>

fun vshrn_n_u64 :: "uint64x2 \<Rightarrow> nat \<Rightarrow> uint32x2" where
  "vshrn_n_u64 (a, b) k = (ucast (drop_bit k a), ucast (drop_bit k b))"

fun vmulq_u32 :: "uint32x4 \<Rightarrow> uint32x4 \<Rightarrow> uint32x4" where
  "vmulq_u32 (a, b, c, d) (e, f, g, h) = (a * e, b * f, c * g, d * h)"

fun vsubq_u32 :: "uint32x4 \<Rightarrow> uint32x4 \<Rightarrow> uint32x4" where
  "vsubq_u32 (a, b, c, d) (e, f, g, h) = (a - e, b - f, c - g, d - h)"

fun vcgeq_u32 :: "uint32x4 \<Rightarrow> uint32x4 \<Rightarrow> uint32x4" where
  "vcgeq_u32 (a, b, c, d) (e, f, g, h) =
     (lane_mask (a \<ge> e), lane_mask (b \<ge> f), lane_mask (c \<ge> g), lane_mask (d \<ge> h))"

fun vceqq_u32 :: "uint32x4 \<Rightarrow> uint32x4 \<Rightarrow> uint32x4" where
  "vceqq_u32 (a, b, c, d) (e, f, g, h) =
     (lane_mask (a = e), lane_mask (b = f), lane_mask (c = g), lane_mask (d = h))"

fun vandq_u32 :: "uint32x4 \<Rightarrow> uint32x4 \<Rightarrow> uint32x4" where
  "vandq_u32 (a, b, c, d) (e, f, g, h) = (a AND e, b AND f, c AND g, d AND h)"

fun vorrq_u32 :: "uint32x4 \<Rightarrow> uint32x4 \<Rightarrow> uint32x4" where
  "vorrq_u32 (a, b, c, d) (e, f, g, h) = (a OR e, b OR f, c OR g, d OR h)"

fun vmvnq_u32 :: "uint32x4 \<Rightarrow> uint32x4" where
  "vmvnq_u32 (a, b, c, d) = (NOT a, NOT b, NOT c, NOT d)"

text \<open>Load four consecutive array elements into a register, and store a register to an array.\<close>

definition vld1q_u32 :: "uint32 list \<Rightarrow> uint32x4" where
  "vld1q_u32 xs = (xs ! 0, xs ! 1, xs ! 2, xs ! 3)"

fun vst1q_u32 :: "uint32x4 \<Rightarrow> uint32 list" where
  "vst1q_u32 (a, b, c, d) = [a, b, c, d]"

section \<open>The prime bank and the Barrett reducer\<close>

definition kSmallPrimes :: "uint32 list" where
  "kSmallPrimes = [2, 3, 5, 7, 11, 13, 17, 19]"

definition kExtendedPrimes :: "uint32 list" where
  "kExtendedPrimes = [23, 29, 31, 37, 41, 43, 47, 53]"

text \<open>
  \<open>make_barrett_magic\<close>: the 64-bit quotient \<open>(2^32 + p - 1) / p\<close>, cast to 32 bits.
  The source divides by \<open>p\<close> unguarded; it is only ever called on the entries of the two
  banks, and every statement below about it is for those.
\<close>

definition make_barrett_magic :: "uint32 \<Rightarrow> uint32" where
  "make_barrett_magic p =
     ucast (((push_bit 32 (1 :: uint64)) + (ucast p :: uint64) - 1) div (ucast p :: uint64))"

text \<open>
  \<open>barrett_modq_u32_dual\<close>: the two output registers \<open>remainder1\<close>, \<open>remainder2\<close>
  are returned as a pair.
\<close>

definition barrett_modq_u32_dual ::
  "uint32x4 \<Rightarrow> uint32x4 \<Rightarrow> uint32x4 \<Rightarrow> uint32x4 \<Rightarrow> uint32x4 \<times> uint32x4" where
  "barrett_modq_u32_dual n_vec1 n_vec2 magic_vec p_vec =
     (let lo1 = vmull_u32 (vget_low_u32 n_vec1) (vget_low_u32 magic_vec);
          hi1 = vmull_u32 (vget_high_u32 n_vec1) (vget_high_u32 magic_vec);
          lo2 = vmull_u32 (vget_low_u32 n_vec2) (vget_low_u32 magic_vec);
          hi2 = vmull_u32 (vget_high_u32 n_vec2) (vget_high_u32 magic_vec);
          q_low1 = vshrn_n_u64 lo1 32;
          q_high1 = vshrn_n_u64 hi1 32;
          q_low2 = vshrn_n_u64 lo2 32;
          q_high2 = vshrn_n_u64 hi2 32;
          q_vec1 = vcombine_u32 q_low1 q_high1;
          q_vec2 = vcombine_u32 q_low2 q_high2;
          qp_vec1 = vmulq_u32 q_vec1 p_vec;
          qp_vec2 = vmulq_u32 q_vec2 p_vec;
          remainder1 = vsubq_u32 n_vec1 qp_vec1;
          remainder2 = vsubq_u32 n_vec2 qp_vec2;
          cmp1 = vcgeq_u32 remainder1 p_vec;
          cmp2 = vcgeq_u32 remainder2 p_vec
      in (vsubq_u32 remainder1 (vandq_u32 cmp1 p_vec),
          vsubq_u32 remainder2 (vandq_u32 cmp2 p_vec)))"

section \<open>Scalar trial division\<close>

text \<open>
  The loop \<open>for (uint64_t i = 3; i * i <= n; i += 2)\<close> of \<open>is_prime_scalar\<close>, in
  wrapping 64-bit arithmetic. Nothing in its text bounds the number of iterations, so it is
  a partial function: \<open>None\<close> stands for a loop that never returns. Started at 3, \<open>i\<close>
  stays odd, so the divisor of \<open>n % i\<close> is never zero.
\<close>

partial_function (option) trial_loop :: "uint64 \<Rightarrow> uint64 \<Rightarrow> bool option" where
  "trial_loop n i =
     (if i * i \<le> n
      then (if n mod i = 0 then Some False else trial_loop n (i + 2))
      else Some True)"

definition is_prime_scalar :: "uint64 \<Rightarrow> bool option" where
  "is_prime_scalar n =
     (if n < 2 then Some False
      else if n mod 2 = 0 then Some (n = 2)
      else trial_loop n 3)"

section \<open>The batch processor\<close>

text \<open>
  \<open>process_scalar(numbers, results, count)\<close>. Both pointer arguments are always the same
  offset \<open>base\<close> into the two arrays, so a call is modelled on the whole arrays and that
  offset. The loop writes \<open>results[base + i]\<close> for \<open>i = 0, ..., count - 1\<close>.
\<close>

function process_scalar_loop ::
  "uint64 list \<Rightarrow> bool list \<Rightarrow> nat \<Rightarrow> nat \<Rightarrow> nat \<Rightarrow> bool list option" where
  "process_scalar_loop numbers results base count i =
     (if i < count
      then (case is_prime_scalar (numbers ! (base + i)) of
              None \<Rightarrow> None
            | Some v \<Rightarrow> process_scalar_loop numbers (results[base + i := v]) base count (i + 1))
      else Some results)"
  by pat_completeness auto
termination
  by (relation "measure (\<lambda>(numbers, results, base, count, i). count - i)") auto

definition process_scalar :: "uint64 list \<Rightarrow> bool list \<Rightarrow> nat \<Rightarrow> nat \<Rightarrow> bool list option" where
  "process_scalar numbers results base count = process_scalar_loop numbers results base count 0"

text \<open>The range guard: the scan of the eight candidates of a group for one above \<open>UINT32_MAX\<close>.\<close>

definition can_use_neon :: "uint64 list \<Rightarrow> nat \<Rightarrow> bool" where
  "can_use_neon numbers i = list_all (\<lambda>j. \<not> numbers ! (i + j) > UINT32_MAX) [0..<8]"

text \<open>
  The \<open>sieve\<close> lambda. It captures the two candidate registers and updates the two
  composite masks in place; here the masks are passed in and returned.
\<close>

definition sieve ::
  "uint32x4 \<Rightarrow> uint32x4 \<Rightarrow> uint32x4 \<times> uint32x4 \<Rightarrow> uint32 \<Rightarrow> uint32x4 \<times> uint32x4" where
  "sieve n_vec1 n_vec2 masks prime =
     (let composite_mask1 = fst masks;
          composite_mask2 = snd masks;
          p_vec = vdupq_n_u32 prime;
          m_vec = vdupq_n_u32 (make_barrett_magic prime);
          r = barrett_modq_u32_dual n_vec1 n_vec2 m_vec p_vec;
          r_vec1 = fst r;
          r_vec2 = snd r;
          divisible1 = vceqq_u32 r_vec1 (vdupq_n_u32 0);
          divisible2 = vceqq_u32 r_vec2 (vdupq_n_u32 0);
          is_prime_itself1 = vceqq_u32 n_vec1 p_vec;
          is_prime_itself2 = vceqq_u32 n_vec2 p_vec;
          divisible1' = vandq_u32 divisible1 (vmvnq_u32 is_prime_itself1);
          divisible2' = vandq_u32 divisible2 (vmvnq_u32 is_prime_itself2)
      in (vorrq_u32 composite_mask1 divisible1', vorrq_u32 composite_mask2 divisible2'))"

text \<open>The two loops over the banks, from the cleared masks.\<close>

definition sieve_bank :: "uint32x4 \<Rightarrow> uint32x4 \<Rightarrow> uint32x4 \<times> uint32x4" where
  "sieve_bank n_vec1 n_vec2 =
     foldl (sieve n_vec1 n_vec2)
       (foldl (sieve n_vec1 n_vec2) (vdupq_n_u32 0, vdupq_n_u32 0) kSmallPrimes)
       kExtendedPrimes"

text \<open>
  The resolution loops \<open>for (int j = 0; j < 4; ++j)\<close>: a flagged lane gets \<open>false\<close>,
  any other lane the scalar verdict. \<open>base\<close> is \<open>i\<close> for the first and \<open>i + 4\<close> for the
  second register.
\<close>

function resolve_lanes ::
  "uint64 list \<Rightarrow> uint32 list \<Rightarrow> bool list \<Rightarrow> nat \<Rightarrow> nat \<Rightarrow> bool list option" where
  "resolve_lanes numbers composite_flags results base j =
     (if j < 4
      then (if composite_flags ! j \<noteq> 0
            then resolve_lanes numbers composite_flags (results[base + j := False]) base (j + 1)
            else (case is_prime_scalar (numbers ! (base + j)) of
                    None \<Rightarrow> None
                  | Some v \<Rightarrow>
                      resolve_lanes numbers composite_flags (results[base + j := v]) base (j + 1)))
      else Some results)"
  by pat_completeness auto
termination
  by (relation "measure (\<lambda>(numbers, composite_flags, results, base, j). 4 - j)") auto

text \<open>One iteration of the group loop of \<open>process_batch_simd_real_8lane\<close>, at group start \<open>i\<close>.\<close>

definition process_group :: "uint64 list \<Rightarrow> bool list \<Rightarrow> nat \<Rightarrow> bool list option" where
  "process_group numbers results i =
     (if \<not> can_use_neon numbers i then process_scalar numbers results i 8
      else
        (let nums1 = map (\<lambda>j. (ucast (numbers ! (i + j)) :: uint32)) [0..<4];
             nums2 = map (\<lambda>j. (ucast (numbers ! (i + 4 + j)) :: uint32)) [0..<4];
             n_vec1 = vld1q_u32 nums1;
             n_vec2 = vld1q_u32 nums2;
             masks = sieve_bank n_vec1 n_vec2;
             composite_flags1 = vst1q_u32 (fst masks);
             composite_flags2 = vst1q_u32 (snd masks)
         in (case resolve_lanes numbers composite_flags1 results i 0 of
               None \<Rightarrow> None
             | Some results' \<Rightarrow> resolve_lanes numbers composite_flags2 results' (i + 4) 0)))"

function simd_loop :: "uint64 list \<Rightarrow> bool list \<Rightarrow> nat \<Rightarrow> nat \<Rightarrow> bool list option" where
  "simd_loop numbers results count i =
     (if i + 8 \<le> count
      then (case process_group numbers results i of
              None \<Rightarrow> None
            | Some results' \<Rightarrow> simd_loop numbers results' count (i + 8))
      else Some results)"
  by pat_completeness auto
termination
  by (relation "measure (\<lambda>(numbers, results, count, i). count - i)") auto

definition process_batch_simd_real_8lane ::
  "uint64 list \<Rightarrow> bool list \<Rightarrow> nat \<Rightarrow> bool list option" where
  "process_batch_simd_real_8lane numbers results count =
     (case simd_loop numbers results count 0 of
        None \<Rightarrow> None
      | Some results' \<Rightarrow>
          (let remaining = count mod 8
           in if remaining \<noteq> 0
              then process_scalar numbers results' (count - remaining) remaining
              else Some results'))"

text \<open>\<open>results.resize(n)\<close>: truncate, or pad with \<open>false\<close>.\<close>

definition resize :: "bool list \<Rightarrow> nat \<Rightarrow> bool list" where
  "resize results n = take n results @ replicate (n - length results) False"

text \<open>
  \<open>SIMDBatchProcessor::process(numbers, results)\<close>: \<open>results\<close> is the caller's vector as
  it comes in; the value returned is that vector as it is left.
\<close>

definition process :: "uint64 list \<Rightarrow> bool list \<Rightarrow> bool list option" where
  "process numbers results =
     (let results' = resize results (length numbers)
      in if length numbers \<ge> 16
         then process_batch_simd_real_8lane numbers results' (length numbers)
         else process_scalar numbers results' 0 (length numbers))"

section \<open>Reference notions\<close>

text \<open>Primality of a natural number, by its definition: above 1 and without a proper divisor.\<close>

definition is_prime_nat :: "nat \<Rightarrow> bool" where
  "is_prime_nat n = (1 < n \<and> (\<forall>d \<in> {2..<n}. \<not> d dvd n))"

text \<open>
  The specification's scalar trial division, from its words: below 2 not prime; 2 prime; any
  other even number composite; otherwise composite exactly if an odd divisor from 3 up to
  \<open>floor (sqrt n)\<close> divides it. For naturals \<open>d \<le> floor (sqrt n)\<close> is \<open>d * d \<le> n\<close>.
\<close>

definition scalar_trial_division_spec :: "nat \<Rightarrow> bool" where
  "scalar_trial_division_spec n =
     (if n < 2 then False
      else if n = 2 then True
      else if even n then False
      else \<not> (\<exists>d \<in> {3..n}. odd d \<and> d * d \<le> n \<and> d dvd n))"

section \<open>Lane-wise view of the vector code\<close>

text \<open>
  Auxiliary notions for the proofs. None of them is in the source: each is what the vector
  code above computes in a single lane, and the lemmas below connect them to it.
\<close>

text \<open>The whole bank, in the order the two loops run through it.\<close>

definition prime_bank :: "uint32 list" where
  "prime_bank = kSmallPrimes @ kExtendedPrimes"

text \<open>What \<open>barrett_modq_u32_dual\<close> computes in one lane.\<close>

definition barrett_lane :: "uint32 \<Rightarrow> uint32 \<Rightarrow> uint32 \<Rightarrow> uint32" where
  "barrett_lane n magic p =
     (let q = (ucast (drop_bit 32 ((ucast n :: uint64) * ucast magic)) :: uint32);
          r = n - q * p
      in r - (lane_mask (r \<ge> p) AND p))"

text \<open>What one call of the \<open>sieve\<close> lambda does to the mask of one lane, and a run of calls.\<close>

definition sieve_lane :: "uint32 \<Rightarrow> uint32 \<Rightarrow> uint32 \<Rightarrow> uint32" where
  "sieve_lane prime n m =
     m OR (lane_mask (barrett_lane n (make_barrett_magic prime) prime = 0) AND NOT (lane_mask (n = prime)))"

definition sieve_lanes :: "uint32 list \<Rightarrow> uint32 \<Rightarrow> uint32 \<Rightarrow> uint32" where
  "sieve_lanes ps n m = foldl (\<lambda>m' p. sieve_lane p n m') m ps"

text \<open>The eight lanes of a pair of registers, lane 0 first.\<close>

definition lanes8 :: "uint32x4 \<times> uint32x4 \<Rightarrow> uint32 list" where
  "lanes8 v = vst1q_u32 (fst v) @ vst1q_u32 (snd v)"

text \<open>
  An array of verdicts in which the slots \<open>lo, ..., hi - 1\<close> hold the primality of the
  candidate at the same index and every other slot is as in \<open>results\<close>.
\<close>

definition verdicts_on :: "uint64 list \<Rightarrow> bool list \<Rightarrow> nat \<Rightarrow> nat \<Rightarrow> bool list" where
  "verdicts_on numbers results lo hi =
     map (\<lambda>k. if lo \<le> k \<and> k < hi then is_prime_nat (unat (numbers ! k)) else results ! k)
       [0..<length results]"

declare process_scalar_loop.simps [simp del] resolve_lanes.simps [simp del] simd_loop.simps [simp del]

section \<open>The Barrett estimate\<close>

lemma lane_mask_alt: "lane_mask b = (if b then - 1 else 0)"
  by (simp add: lane_mask_def)

lemma unat_ucast_32_64: "unat (ucast (w :: uint32) :: uint64) = unat w"
proof -
  have "unat w < 2 ^ 32" using unsigned_less[of w] by simp
  hence "unat w < 2 ^ 64" by simp
  thus ?thesis by (simp add: unsigned_ucast_eq take_bit_nat_eq_self)
qed

lemma unat_q:
  fixes n m :: uint32
  shows "unat (ucast (drop_bit 32 ((ucast n :: uint64) * ucast m)) :: uint32) = (unat n * unat m) div 2 ^ 32"
proof -
  have n: "unat n < 2 ^ 32" and m: "unat m < 2 ^ 32" using unsigned_less[of n] unsigned_less[of m] by simp_all
  have "unat n * unat m < 2 ^ 32 * 2 ^ 32" using n m by (intro mult_strict_mono) simp_all
  hence lt: "unat n * unat m < 2 ^ 64" by simp
  have 1: "unat ((ucast n :: uint64) * ucast m) = unat n * unat m"
    using lt by (simp add: unat_word_ariths unat_ucast_32_64)
  have 2: "unat (drop_bit 32 ((ucast n :: uint64) * ucast m)) = (unat n * unat m) div 2 ^ 32"
  proof -
    have "unat (drop_bit 32 ((ucast n :: uint64) * ucast m)) = drop_bit 32 (unat ((ucast n :: uint64) * ucast m))"
      by (rule unat_drop_bit_eq)
    thus ?thesis by (simp only: 1 drop_bit_eq_div)
  qed
  have "(unat n * unat m) div 2 ^ 32 < 2 ^ 32" using lt by (simp add: less_mult_imp_div_less)
  thus ?thesis by (simp add: unsigned_ucast_eq 2 take_bit_nat_eq_self)
qed

lemma barrett_estimate:
  fixes n p M e :: nat
  assumes Mp: "M * p = 2 ^ 32 + e" and e: "e < p" and n: "n < 2 ^ 32"
  defines "q \<equiv> (n * M) div 2 ^ 32"
  shows "(n div p) * p \<le> q * p" and "q * p < n + p" 
proof -
  have p0: "0 < p" using e by simp
  have "(n div p) * p * 2 ^ 32 \<le> n * 2 ^ 32" by simp
  also have "\<dots> \<le> n * (2 ^ 32 + e)" by simp
  also have "\<dots> = (n * M) * p" using Mp by (simp add: mult.assoc)
  finally have "(n div p) * 2 ^ 32 * p \<le> (n * M) * p" by (simp add: mult_ac)
  hence "(n div p) * 2 ^ 32 \<le> n * M" using p0 by simp
  hence "n div p \<le> q" unfolding q_def by (simp add: less_eq_div_iff_mult_less_eq)
  thus "(n div p) * p \<le> q * p" by simp
  have "q * 2 ^ 32 \<le> n * M" unfolding q_def by simp
  hence "q * 2 ^ 32 * p \<le> n * M * p" by simp
  also have "\<dots> = n * 2 ^ 32 + n * e" using Mp by (simp add: mult.assoc distrib_left)
  also have "n * e < 2 ^ 32 * p" using n e by (intro mult_strict_mono) simp_all
  finally have "q * p * 2 ^ 32 < (n + p) * 2 ^ 32" by (simp add: mult_ac distrib_right)
  thus "q * p < n + p" by simp
qed

lemma barrett_lane_zero_iff:
  fixes n p m :: uint32
  assumes Mp: "unat m * unat p = 2 ^ 32 + e" and e: "e < unat p" and p2: "unat p < 2 ^ 31"
  shows "barrett_lane n m p = 0 \<longleftrightarrow> unat p dvd unat n"
proof -
  define q :: uint32 where "q = ucast (drop_bit 32 ((ucast n :: uint64) * ucast m))"
  define r where "r = n - q * p"
  have n: "unat n < 2 ^ 32" using unsigned_less[of n] by simp
  have uq: "unat q = (unat n * unat m) div 2 ^ 32" unfolding q_def by (rule unat_q)
  have lo: "(unat n div unat p) * unat p \<le> unat q * unat p"
    and hi: "unat q * unat p < unat n + unat p"
    using barrett_estimate[OF Mp e n] by (simp_all add: uq)
  have p0: "0 < unat p" using e by simp
  have res: "barrett_lane n m p = (if p \<le> r then r - p else r)"
    by (simp add: barrett_lane_def Let_def q_def r_def lane_mask_alt)
  have bound: "unat q * unat p < 2 ^ 32 + 2 ^ 31" using hi n p2 by simp
  have r0: "r = 0 \<longleftrightarrow> unat p dvd unat n"
  proof
    assume "r = 0"
    hence "n = q * p" by (simp add: r_def)
    hence "unat n = (unat q * unat p) mod 2 ^ 32" by (simp add: unat_word_ariths)
    moreover have "(unat q * unat p) mod 2 ^ 32 = unat q * unat p"
    proof (cases "unat q * unat p < 2 ^ 32")
      case True thus ?thesis by simp
    next
      case False
      hence ge: "2 ^ 32 \<le> unat q * unat p" by simp
      have "(unat q * unat p) mod 2 ^ 32 = (unat q * unat p - 2 ^ 32) mod 2 ^ 32"
        using ge by (rule le_mod_geq)
      also have "\<dots> = unat q * unat p - 2 ^ 32" using bound by simp
      finally have "unat n = unat q * unat p - 2 ^ 32" using \<open>unat n = (unat q * unat p) mod 2 ^ 32\<close> by simp
      hence "unat q * unat p = unat n + 2 ^ 32" using ge by simp
      with hi p2 have False by simp
      thus ?thesis ..
    qed
    ultimately have "unat n = unat q * unat p" by simp
    thus "unat p dvd unat n" by simp
  next
    assume d: "unat p dvd unat n"
    hence eq: "(unat n div unat p) * unat p = unat n" by simp
    have "unat n div unat p \<le> unat q" using lo p0 by simp
    moreover have "unat q * unat p < (unat n div unat p + 1) * unat p" using hi eq by (simp add: distrib_right)
    hence "unat q < unat n div unat p + 1" by (rule mult_less_cancel2 [THEN iffD1, THEN conjunct2])
    ultimately have "unat q = unat n div unat p" by simp
    hence "unat q * unat p = unat n" using eq by simp
    hence "unat (q * p) = unat n" using n by (simp add: unat_word_ariths)
    hence "q * p = n" by (simp add: word_unat_eq_iff)
    thus "r = 0" by (simp add: r_def)
  qed
  have rp: "r \<noteq> p"
  proof
    assume "r = p"
    hence "n = (q + 1) * p" by (simp add: r_def algebra_simps)
    hence "unat n = unat (q * p + p)" by (simp add: algebra_simps)
    hence un: "unat n = (unat q * unat p + unat p) mod 2 ^ 32" by (simp add: unat_word_ariths mod_simps)
    have gt: "unat n < unat q * unat p + unat p"
    proof -
      have "unat n < (unat n div unat p) * unat p + unat p"
        using p0 by (metis mod_div_mult_eq add.commute add_less_cancel_left mod_less_divisor)
      thus ?thesis using lo by linarith
    qed
    have lt: "unat q * unat p + unat p < unat n + 2 ^ 32" using hi p2 by simp
    show False
    proof (cases "unat q * unat p + unat p < 2 ^ 32")
      case True thus False using un gt by simp
    next
      case False
      hence ge: "2 ^ 32 \<le> unat q * unat p + unat p" by simp
      have "(unat q * unat p + unat p) mod 2 ^ 32 = (unat q * unat p + unat p - 2 ^ 32) mod 2 ^ 32"
        using ge by (rule le_mod_geq)
      also have "\<dots> = unat q * unat p + unat p - 2 ^ 32" using lt n by simp
      finally show False using un lt ge by simp
    qed
  qed
  have pn0: "p \<noteq> 0" using p0 by auto
  show ?thesis
  proof (cases "p \<le> r")
    case True
    hence "r \<noteq> 0" using pn0 by auto
    thus ?thesis using True r0 rp by (simp add: res)
  next
    case False
    thus ?thesis using r0 by (simp add: res)
  qed
qed

lemma barrett_dual_lanes:
  "barrett_modq_u32_dual (a, b, c, d) (e, f, g, h) (vdupq_n_u32 m) (vdupq_n_u32 p) =
     ((barrett_lane a m p, barrett_lane b m p, barrett_lane c m p, barrett_lane d m p),
      (barrett_lane e m p, barrett_lane f m p, barrett_lane g m p, barrett_lane h m p))"
  by (simp add: barrett_modq_u32_dual_def vdupq_n_u32_def barrett_lane_def Let_def)

section \<open>Correctness of scalar trial division\<close>

lemma unat_lt64: "unat (w :: uint64) < 18446744073709551616"
  using unsigned_less[of w] by simp

lemma unat_sq:
  fixes i :: uint64
  assumes "unat i * unat i \<le> unat (n :: uint64)"
  shows "unat (i * i) = unat i * unat i"
proof -
  have "unat i * unat i < 2 ^ LENGTH(64)" using assms unat_lt64[of n] by simp
  thus ?thesis by (simp only: unat_mult_lem)
qed

lemma unat_plus2:
  fixes i :: uint64
  assumes "unat i + 2 \<le> unat (j :: uint64)"
  shows "unat (i + 2) = unat i + 2"
proof -
  have "unat i + unat (2 :: uint64) < 2 ^ LENGTH(64)" using assms unat_lt64[of j] by simp
  hence "unat (i + 2) = unat i + unat (2 :: uint64)" by (simp only: unat_add_lem)
  thus ?thesis by simp
qed

lemma word_mod_zero_iff: "(n :: uint64) mod i = 0 \<longleftrightarrow> unat n mod unat i = 0"
proof -
  have "(n mod i = 0) = (unat (n mod i) = unat (0 :: uint64))" by (simp only: word_unat_eq_iff)
  thus ?thesis by (simp add: unat_mod)
qed

lemma trial_loop_composite:
  fixes n i :: uint64 and d :: nat
  assumes "odd d" "d * d \<le> unat n" "d dvd unat n"
    and "odd (unat i)" "unat i \<le> d" "0 < unat i"
  shows "trial_loop n i = Some False"
  using assms(4-6)
proof (induction "d - unat i" arbitrary: i rule: less_induct)
  case less
  have "unat i * unat i \<le> d * d" using less.prems by (simp add: mult_mono)
  hence sq: "unat i * unat i \<le> unat n" using assms(2) by simp
  hence cond: "i * i \<le> n" by (simp add: word_le_nat_alt unat_sq[OF sq])
  show ?case
  proof (cases "n mod i = 0")
    case True
    thus ?thesis using cond by (subst trial_loop.simps) simp
  next
    case False
    hence "unat i \<noteq> d" using assms(3) by (auto simp: word_mod_zero_iff)
    hence "unat i < d" using less.prems by simp
    hence le: "unat i + 2 \<le> d" using less.prems(1) assms(1) by presburger
    have "d \<le> d * d" by simp
    hence "d \<le> unat n" using assms(2) by (rule order_trans)
    hence u: "unat (i + 2) = unat i + 2" using le by (intro unat_plus2[of i n]) simp
    have "trial_loop n (i + 2) = Some False"
      using le less.prems \<open>unat i < d\<close> by (intro less.hyps) (simp_all add: u)
    thus ?thesis using cond False by (subst trial_loop.simps) simp
  qed
qed

lemma trial_loop_prime:
  fixes n i j :: uint64
  assumes "is_prime_nat (unat n)" "odd (unat j)" "unat j \<le> unat n" "\<not> j * j \<le> n"
    and "odd (unat i)" "unat i \<le> unat j" "2 \<le> unat i"
  shows "trial_loop n i = Some True"
  using assms(5-7)
proof (induction "unat j - unat i" arbitrary: i rule: less_induct)
  case less
  show ?case
  proof (cases "i * i \<le> n")
    case False
    thus ?thesis by (subst trial_loop.simps) simp
  next
    case True
    hence "i \<noteq> j" using assms(4) by auto
    hence "unat i \<noteq> unat j" by (simp add: word_unat_eq_iff)
    hence lt: "unat i < unat j" using less.prems by simp
    hence "unat i \<in> {2..<unat n}" using less.prems assms(3) by simp
    hence "\<not> unat i dvd unat n" using assms(1) by (simp add: is_prime_nat_def)
    hence nz: "n mod i \<noteq> 0" by (simp add: word_mod_zero_iff dvd_eq_mod_eq_0)
    have le: "unat i + 2 \<le> unat j" using lt less.prems(1) assms(2) by presburger
    have u: "unat (i + 2) = unat i + 2" using le by (rule unat_plus2)
    have "trial_loop n (i + 2) = Some True"
      using le less.prems lt by (intro less.hyps) (simp_all add: u)
    thus ?thesis using True nz by (subst trial_loop.simps) simp
  qed
qed

lemma not_prime_top:
  "\<not> is_prime_nat 18446744073709551609" "\<not> is_prime_nat 18446744073709551611"
  "\<not> is_prime_nat 18446744073709551613" "\<not> is_prime_nat 18446744073709551615"
proof -
  have "(3::nat) dvd 18446744073709551609" "(11::nat) dvd 18446744073709551611"
    "(13::nat) dvd 18446744073709551613" "(3::nat) dvd 18446744073709551615" by simp_all
  moreover have "(3::nat) \<in> {2..<18446744073709551609}" "(11::nat) \<in> {2..<18446744073709551611}"
    "(13::nat) \<in> {2..<18446744073709551613}" "(3::nat) \<in> {2..<18446744073709551615}" by simp_all
  ultimately show "\<not> is_prime_nat 18446744073709551609" "\<not> is_prime_nat 18446744073709551611"
  "\<not> is_prime_nat 18446744073709551613" "\<not> is_prime_nat 18446744073709551615"
    unfolding is_prime_nat_def by blast+
qed

lemma exit_witness:
  fixes n :: uint64
  assumes pr: "is_prime_nat (unat n)" and od: "odd (unat n)"
  shows "\<exists>j :: uint64. odd (unat j) \<and> unat j \<le> unat n \<and> \<not> j * j \<le> n \<and> 3 \<le> unat j"
proof -
  have "1 < unat n" using pr by (simp add: is_prime_nat_def)
  hence n3: "3 \<le> unat n" using od by presburger
  consider (small) "unat n < 4294967296"
    | (mid) "4294967296 \<le> unat n" "unat n < 18446744065119617025"
    | (big) "18446744065119617025 \<le> unat n" "unat n < 18446744073709551609"
    | (top) "18446744073709551609 \<le> unat n" by linarith
  thus ?thesis
  proof cases
    case small
    have "unat n * unat n < 4294967296 * 4294967296" using small by (intro mult_strict_mono) simp_all
    hence "unat n * unat n < 2 ^ LENGTH(64)" by simp
    hence "unat (n * n) = unat n * unat n" by (simp only: unat_mult_lem)
    moreover have "unat n * 1 < unat n * unat n" using n3 by (intro mult_strict_left_mono) simp_all
    ultimately have "\<not> n * n \<le> n" by (simp add: word_le_nat_alt)
    thus ?thesis using od n3 by blast
  next
    case mid
    let ?j = "4294967295 :: uint64"
    have "?j * ?j = 18446744065119617025" by simp
    hence "\<not> ?j * ?j \<le> n" using mid by (simp add: word_le_nat_alt)
    moreover have "odd (unat ?j)" "unat ?j \<le> unat n" "3 \<le> unat ?j" using mid by simp_all
    ultimately show ?thesis by blast
  next
    case big
    let ?j = "1852311383259529397 :: uint64"
    have "?j * ?j = 18446744073709551609" by simp
    hence "\<not> ?j * ?j \<le> n" using big by (simp add: word_le_nat_alt)
    moreover have "odd (unat ?j)" "unat ?j \<le> unat n" "3 \<le> unat ?j" using big by simp_all
    ultimately show ?thesis by blast
  next
    case top
    hence "unat n = 18446744073709551609 \<or> unat n = 18446744073709551611 \<or>
           unat n = 18446744073709551613 \<or> unat n = 18446744073709551615"
      using od unat_lt64[of n] by presburger
    thus ?thesis using pr not_prime_top by auto
  qed
qed

lemma odd_composite_divisor:
  fixes m :: nat
  assumes "odd m" "1 < m" "\<not> is_prime_nat m"
  shows "\<exists>d. odd d \<and> 3 \<le> d \<and> d * d \<le> m \<and> d dvd m"
proof -
  from assms obtain a where a: "2 \<le> a" "a < m" "a dvd m" unfolding is_prime_nat_def by auto
  then obtain b where b: "m = a * b" by (auto simp: dvd_def)
  have oa: "odd a" and ob: "odd b" using assms(1) b by simp_all
  have "a \<noteq> 1" using a by simp
  have "b \<noteq> 0" using assms(2) b by (cases b) simp_all
  have a3: "3 \<le> a" using a(1) oa by presburger
  have "b \<noteq> 1" using a(2) b by simp
  hence b3: "3 \<le> b" using ob \<open>b \<noteq> 0\<close> by presburger
  show ?thesis
  proof (cases "a \<le> b")
    case True
    hence "a * a \<le> m" using b by simp
    thus ?thesis using oa a3 a(3) by blast
  next
    case False
    hence "b * b \<le> m" using b by simp
    moreover have "b dvd m" using b by simp
    ultimately show ?thesis using ob b3 by blast
  qed
qed

lemma is_prime_scalar_correct: "is_prime_scalar n = Some (is_prime_nat (unat n))"
proof (cases "n < 2")
  case True
  hence "unat n < 2" by (simp add: word_less_nat_alt)
  thus ?thesis using True by (simp add: is_prime_scalar_def is_prime_nat_def)
next
  case False
  hence n2: "2 \<le> unat n" by (simp add: word_less_nat_alt not_less)
  show ?thesis
  proof (cases "n mod 2 = 0")
    case True
    hence ev: "even (unat n)" by (simp add: word_mod_zero_iff even_iff_mod_2_eq_zero)
    have "is_prime_nat (unat n) \<longleftrightarrow> n = 2"
    proof
      assume p: "is_prime_nat (unat n)"
      have "\<not> 2 < unat n"
      proof
        assume "2 < unat n"
        hence "2 \<in> {2..<unat n}" by simp
        thus False using p ev unfolding is_prime_nat_def by blast
      qed
      hence "unat n = unat (2 :: uint64)" using n2 by simp
      thus "n = 2" by (simp only: word_unat_eq_iff)
    next
      assume "n = 2"
      thus "is_prime_nat (unat n)" by (simp add: is_prime_nat_def)
    qed
    thus ?thesis using True False by (simp add: is_prime_scalar_def)
  next
    case odd: False
    hence od: "odd (unat n)" by (simp add: word_mod_zero_iff even_iff_mod_2_eq_zero)
    have eq: "is_prime_scalar n = trial_loop n 3" using False odd by (simp add: is_prime_scalar_def)
    show ?thesis
    proof (cases "is_prime_nat (unat n)")
      case True
      from exit_witness[OF True od] obtain j :: uint64 where
        j: "odd (unat j)" "unat j \<le> unat n" "\<not> j * j \<le> n" "3 \<le> unat j" by blast
      have "trial_loop n 3 = Some True"
        using True j by (intro trial_loop_prime[of n j]) simp_all
      thus ?thesis using eq True by simp
    next
      case False
      from odd_composite_divisor[OF od _ False] n2 obtain d where
        d: "odd d" "3 \<le> d" "d * d \<le> unat n" "d dvd unat n" by auto
      have "trial_loop n 3 = Some False"
        using d by (intro trial_loop_composite[of d]) simp_all
      thus ?thesis using eq False by simp
    qed
  qed
qed

lemma spec_is_prime: "scalar_trial_division_spec m = is_prime_nat m"
proof -
  consider "m < 2" | "m = 2" | "2 < m" "even m" | "2 < m" "odd m" by linarith
  thus ?thesis
  proof cases
    case 1 thus ?thesis by (simp add: scalar_trial_division_spec_def is_prime_nat_def)
  next
    case 2 thus ?thesis by (simp add: scalar_trial_division_spec_def is_prime_nat_def)
  next
    case 3
    hence "2 \<in> {2..<m}" "2 dvd m" by simp_all
    hence "\<not> is_prime_nat m" unfolding is_prime_nat_def by blast
    thus ?thesis using 3 by (simp add: scalar_trial_division_spec_def)
  next
    case 4
    have "(\<exists>d \<in> {3..m}. odd d \<and> d * d \<le> m \<and> d dvd m) \<longleftrightarrow> \<not> is_prime_nat m"
    proof
      assume "\<exists>d \<in> {3..m}. odd d \<and> d * d \<le> m \<and> d dvd m"
      then obtain d where d: "3 \<le> d" "d * d \<le> m" "d dvd m" by auto
      have "d * 1 < d * d" using d(1) by (intro mult_strict_left_mono) simp_all
      hence "d < m" using d(2) by linarith
      hence "d \<in> {2..<m}" using d(1) by simp
      thus "\<not> is_prime_nat m" using d(3) unfolding is_prime_nat_def by blast
    next
      assume "\<not> is_prime_nat m"
      from odd_composite_divisor[OF 4(2) _ this] 4(1) obtain d where
        d: "odd d" "3 \<le> d" "d * d \<le> m" "d dvd m" by auto
      have "d \<le> m" using d(4) 4(1) by (intro dvd_imp_le) simp_all
      thus "\<exists>d \<in> {3..m}. odd d \<and> d * d \<le> m \<and> d dvd m" using d by auto
    qed
    thus ?thesis using 4 by (simp add: scalar_trial_division_spec_def)
  qed
qed

section \<open>The sieve, lane by lane\<close>

lemma bank_magic:
  assumes "p \<in> set prime_bank"
  shows "\<exists>e. unat (make_barrett_magic p) * unat p = 2 ^ 32 + e \<and> e < unat p \<and> unat p < 2 ^ 31"
proof -
  have "p \<in> {2, 3, 5, 7, 11, 13, 17, 19, 23, 29, 31, 37, 41, 43, 47, 53}"
    using assms by (simp add: prime_bank_def kSmallPrimes_def kExtendedPrimes_def)
  thus ?thesis 
    by (elim insertE emptyE) (simp_all add: make_barrett_magic_def)
qed

lemma sieve_tuple:
  "sieve (a, b, c, d) (e, f, g, h) ((ma, mb, mc, md), (me, mf, mg, mh)) p =
     ((sieve_lane p a ma, sieve_lane p b mb, sieve_lane p c mc, sieve_lane p d md),
      (sieve_lane p e me, sieve_lane p f mf, sieve_lane p g mg, sieve_lane p h mh))"
  by (simp add: sieve_def Let_def barrett_dual_lanes sieve_lane_def) (simp add: vdupq_n_u32_def)

lemma foldl_sieve_tuple:
  "foldl (sieve (a, b, c, d) (e, f, g, h)) ((ma, mb, mc, md), (me, mf, mg, mh)) ps =
     ((sieve_lanes ps a ma, sieve_lanes ps b mb, sieve_lanes ps c mc, sieve_lanes ps d md),
      (sieve_lanes ps e me, sieve_lanes ps f mf, sieve_lanes ps g mg, sieve_lanes ps h mh))"
  by (induction ps arbitrary: ma mb mc md me mf mg mh) (simp_all add: sieve_lanes_def sieve_tuple)

lemma sieve_lanes_append: "sieve_lanes qs n (sieve_lanes ps n m) = sieve_lanes (ps @ qs) n m"
  by (simp add: sieve_lanes_def)

lemma sieve_bank_tuple:
  "sieve_bank (a, b, c, d) (e, f, g, h) =
     ((sieve_lanes prime_bank a 0, sieve_lanes prime_bank b 0, sieve_lanes prime_bank c 0, sieve_lanes prime_bank d 0),
      (sieve_lanes prime_bank e 0, sieve_lanes prime_bank f 0, sieve_lanes prime_bank g 0, sieve_lanes prime_bank h 0))"
  by (simp add: sieve_bank_def vdupq_n_u32_def foldl_sieve_tuple sieve_lanes_append prime_bank_def)

lemma sieve_lane_nonzero:
  "sieve_lane p n m \<noteq> 0 \<longleftrightarrow> m \<noteq> 0 \<or> (barrett_lane n (make_barrett_magic p) p = 0 \<and> n \<noteq> p)"
  by (simp add: sieve_lane_def lane_mask_alt)

lemma sieve_lanes_nonzero:
  "sieve_lanes ps n m \<noteq> 0 \<longleftrightarrow>
     m \<noteq> 0 \<or> (\<exists>p \<in> set ps. barrett_lane n (make_barrett_magic p) p = 0 \<and> n \<noteq> p)"
proof (induction ps arbitrary: m)
  case Nil
  show ?case by (simp add: sieve_lanes_def)
next
  case (Cons p ps)
  have "sieve_lanes (p # ps) n m = sieve_lanes ps n (sieve_lane p n m)" by (simp add: sieve_lanes_def)
  thus ?case using Cons.IH[of "sieve_lane p n m"] sieve_lane_nonzero[of p n m] by auto
qed

lemma barrett_bank_zero_iff:
  assumes "p \<in> set prime_bank"
  shows "barrett_lane n (make_barrett_magic p) p = 0 \<longleftrightarrow> unat p dvd unat n"
proof -
  from bank_magic[OF assms] obtain e where
    "unat (make_barrett_magic p) * unat p = 2 ^ 32 + e" "e < unat p" "unat p < 2 ^ 31" by blast
  thus ?thesis by (rule barrett_lane_zero_iff)
qed

lemma bank_flag_iff:
  "sieve_lanes prime_bank n 0 \<noteq> 0 \<longleftrightarrow> (\<exists>p \<in> set prime_bank. unat p dvd unat n \<and> n \<noteq> p)"
  using barrett_bank_zero_iff by (auto simp: sieve_lanes_nonzero)

section \<open>Writes to the result array\<close>


lemma length_verdicts_on [simp]: "length (verdicts_on numbers results lo hi) = length results"
  by (simp add: verdicts_on_def)

lemma nth_verdicts_on:
  "k < length results \<Longrightarrow>
   verdicts_on numbers results lo hi ! k =
     (if lo \<le> k \<and> k < hi then is_prime_nat (unat (numbers ! k)) else results ! k)"
  by (simp add: verdicts_on_def)

lemma verdicts_on_empty: "hi \<le> lo \<Longrightarrow> verdicts_on numbers results lo hi = results"
  by (rule nth_equalityI) (auto simp: nth_verdicts_on)

lemma verdicts_on_step:
  assumes "lo < hi" "lo < length results"
  shows "verdicts_on numbers (results[lo := is_prime_nat (unat (numbers ! lo))]) (lo + 1) hi =
         verdicts_on numbers results lo hi"
  using assms by (intro nth_equalityI) (auto simp: nth_verdicts_on nth_list_update)

lemma verdicts_on_compose:
  assumes "a \<le> b" "b \<le> c"
  shows "verdicts_on numbers (verdicts_on numbers results a b) b c = verdicts_on numbers results a c"
  using assms by (intro nth_equalityI) (auto simp: nth_verdicts_on)

lemma verdicts_on_all:
  assumes "length results = length numbers"
  shows "verdicts_on numbers results 0 (length numbers) = map (\<lambda>n. is_prime_nat (unat n)) numbers"
  using assms by (intro nth_equalityI) (auto simp: nth_verdicts_on)

lemma process_scalar_loop_eq:
  "base + count \<le> length results \<Longrightarrow>
   process_scalar_loop numbers results base count i =
     Some (verdicts_on numbers results (base + i) (base + count))"
proof (induction numbers results base count i rule: process_scalar_loop.induct)
  case (1 numbers results base count i)
  show ?case
  proof (cases "i < count")
    case True
    let ?v = "is_prime_nat (unat (numbers ! (base + i)))"
    have sc: "is_prime_scalar (numbers ! (base + i)) = Some ?v" by (rule is_prime_scalar_correct)
    have "process_scalar_loop numbers (results[base + i := ?v]) base count (i + 1) =
          Some (verdicts_on numbers (results[base + i := ?v]) (base + (i + 1)) (base + count))"
      using True sc "1.prems" by (intro "1.IH") simp_all
    also have "verdicts_on numbers (results[base + i := ?v]) (base + (i + 1)) (base + count) =
               verdicts_on numbers results (base + i) (base + count)"
      using verdicts_on_step[of "base + i" "base + count" results numbers] True "1.prems"
      by (simp add: add.assoc)
    finally show ?thesis using True sc by (subst process_scalar_loop.simps) simp
  next
    case False
    thus ?thesis by (subst process_scalar_loop.simps) (simp add: verdicts_on_empty)
  qed
qed

lemma process_scalar_eq:
  "base + count \<le> length results \<Longrightarrow>
   process_scalar numbers results base count = Some (verdicts_on numbers results base (base + count))"
  using process_scalar_loop_eq[of base count results numbers 0] by (simp add: process_scalar_def)

lemma resolve_lanes_eq:
  "base + 4 \<le> length results \<Longrightarrow>
   (\<And>j. j < 4 \<Longrightarrow> composite_flags ! j \<noteq> 0 \<Longrightarrow> \<not> is_prime_nat (unat (numbers ! (base + j)))) \<Longrightarrow>
   resolve_lanes numbers composite_flags results base j =
     Some (verdicts_on numbers results (base + j) (base + 4))"
proof (induction numbers composite_flags results base j rule: resolve_lanes.induct)
  case (1 numbers composite_flags results base j)
  show ?case
  proof (cases "j < 4")
    case True
    let ?v = "is_prime_nat (unat (numbers ! (base + j)))"
    have sc: "is_prime_scalar (numbers ! (base + j)) = Some ?v" by (rule is_prime_scalar_correct)
    have step: "verdicts_on numbers (results[base + j := ?v]) (base + (j + 1)) (base + 4) =
               verdicts_on numbers results (base + j) (base + 4)"
      using verdicts_on_step[of "base + j" "base + 4" results numbers] True "1.prems"(1)
      by (simp add: add.assoc)
    show ?thesis
    proof (cases "composite_flags ! j \<noteq> 0")
      case flagged: True
      hence v: "?v = False" using True "1.prems"(2) by simp
      have "resolve_lanes numbers composite_flags (results[base + j := False]) base (j + 1) =
            Some (verdicts_on numbers (results[base + j := False]) (base + (j + 1)) (base + 4))"
        using True flagged "1.prems" by (intro "1.IH"(1)) simp_all
      thus ?thesis using True flagged step v by (subst resolve_lanes.simps) simp
    next
      case unflagged: False
      have "resolve_lanes numbers composite_flags (results[base + j := ?v]) base (j + 1) =
            Some (verdicts_on numbers (results[base + j := ?v]) (base + (j + 1)) (base + 4))"
        using True unflagged sc "1.prems" by (intro "1.IH"(2)) simp_all
      thus ?thesis using True unflagged step sc by (subst resolve_lanes.simps) simp
    qed
  next
    case False
    thus ?thesis by (subst resolve_lanes.simps) (simp add: verdicts_on_empty)
  qed
qed

section \<open>The group loop and the whole batch\<close>

lemma bank_ge2:
  assumes "p \<in> set prime_bank" shows "2 \<le> unat p"
proof -
  have "p \<in> {2, 3, 5, 7, 11, 13, 17, 19, 23, 29, 31, 37, 41, 43, 47, 53}"
    using assms by (simp add: prime_bank_def kSmallPrimes_def kExtendedPrimes_def)
  thus ?thesis by (elim insertE emptyE) simp_all
qed

lemma unat_ucast_small:
  fixes x :: uint64
  assumes "\<not> x > UINT32_MAX"
  shows "unat (ucast x :: uint32) = unat x"
proof -
  have "unat x \<le> unat UINT32_MAX" using assms by (simp add: word_less_nat_alt not_less)
  hence "unat x < 2 ^ 32" by (simp add: UINT32_MAX_def)
  thus ?thesis by (simp add: unsigned_ucast_eq take_bit_nat_eq_self)
qed

lemma divisor_not_prime:
  assumes "d dvd m" "2 \<le> d" "m \<noteq> d"
  shows "\<not> is_prime_nat m"
proof (cases "m = 0")
  case True thus ?thesis by (simp add: is_prime_nat_def)
next
  case False
  hence "d \<le> m" using assms(1) by (intro dvd_imp_le) simp_all
  hence "d \<in> {2..<m}" using assms(2,3) by simp
  thus ?thesis using assms(1) unfolding is_prime_nat_def by blast
qed

lemma flagged_not_prime:
  fixes x :: uint64
  assumes small: "\<not> x > UINT32_MAX" and flag: "sieve_lanes prime_bank (ucast x) 0 \<noteq> 0"
  shows "\<not> is_prime_nat (unat x)"
proof -
  from flag obtain p where p: "p \<in> set prime_bank" "unat p dvd unat (ucast x :: uint32)" "(ucast x :: uint32) \<noteq> p"
    by (auto simp: bank_flag_iff)
  have d: "unat p dvd unat x" using p(2) by (simp add: unat_ucast_small[OF small])
  have "unat (ucast x :: uint32) \<noteq> unat p" using p(3) by (simp add: word_unat_eq_iff)
  hence ne: "unat x \<noteq> unat p" by (simp add: unat_ucast_small[OF small])
  show ?thesis using d bank_ge2[OF p(1)] ne by (rule divisor_not_prime)
qed

lemma can_use_neon_nth:
  "can_use_neon numbers i \<Longrightarrow> j < 8 \<Longrightarrow> \<not> numbers ! (i + j) > UINT32_MAX"
  by (simp add: can_use_neon_def list_all_iff)

lemma flags_of_group:
  "vst1q_u32 (fst (sieve_bank (vld1q_u32 (map f [0..<4])) (vld1q_u32 (map g [0..<4])))) =
     map (\<lambda>j. sieve_lanes prime_bank (f j) 0) [0..<4]"
  "vst1q_u32 (snd (sieve_bank (vld1q_u32 (map f [0..<4])) (vld1q_u32 (map g [0..<4])))) =
     map (\<lambda>j. sieve_lanes prime_bank (g j) 0) [0..<4]"
proof -
  have u: "[0..<4] = [0, 1, 2, 3::nat]" by (simp add: upt_rec)
  show "vst1q_u32 (fst (sieve_bank (vld1q_u32 (map f [0..<4])) (vld1q_u32 (map g [0..<4])))) =
     map (\<lambda>j. sieve_lanes prime_bank (f j) 0) [0..<4]"
    by (simp add: u vld1q_u32_def sieve_bank_tuple)
  show "vst1q_u32 (snd (sieve_bank (vld1q_u32 (map f [0..<4])) (vld1q_u32 (map g [0..<4])))) =
     map (\<lambda>j. sieve_lanes prime_bank (g j) 0) [0..<4]"
    by (simp add: u vld1q_u32_def sieve_bank_tuple)
qed

lemma process_group_eq:
  assumes len: "i + 8 \<le> length results"
  shows "process_group numbers results i = Some (verdicts_on numbers results i (i + 8))"
proof (cases "can_use_neon numbers i")
  case False
  thus ?thesis using process_scalar_eq[OF len, of numbers] by (simp add: process_group_def)
next
  case True
  let ?f = "\<lambda>j. (ucast (numbers ! (i + j)) :: uint32)"
  let ?g = "\<lambda>j. (ucast (numbers ! (i + 4 + j)) :: uint32)"
  let ?flags1 = "map (\<lambda>j. sieve_lanes prime_bank (?f j) 0) [0..<4]"
  let ?flags2 = "map (\<lambda>j. sieve_lanes prime_bank (?g j) 0) [0..<4]"
  let ?r1 = "verdicts_on numbers results i (i + 4)"
  have r1: "resolve_lanes numbers ?flags1 results i 0 = Some (verdicts_on numbers results (i + 0) (i + 4))"
  proof (rule resolve_lanes_eq)
    show "i + 4 \<le> length results" using len by simp
  next
    fix j :: nat assume j: "j < 4" and fl: "?flags1 ! j \<noteq> 0"
    have "\<not> numbers ! (i + j) > UINT32_MAX" using can_use_neon_nth[OF True, of j] j by simp
    moreover have "sieve_lanes prime_bank (?f j) 0 \<noteq> 0" using fl j by simp
    ultimately show "\<not> is_prime_nat (unat (numbers ! (i + j)))" by (rule flagged_not_prime)
  qed
  have r2: "resolve_lanes numbers ?flags2 ?r1 (i + 4) 0 = Some (verdicts_on numbers ?r1 (i + 4 + 0) (i + 4 + 4))"
  proof (rule resolve_lanes_eq)
    show "i + 4 + 4 \<le> length ?r1" using len by simp
  next
    fix j :: nat assume j: "j < 4" and fl: "?flags2 ! j \<noteq> 0"
    have "\<not> numbers ! (i + (4 + j)) > UINT32_MAX" using can_use_neon_nth[OF True, of "4 + j"] j by simp
    hence "\<not> numbers ! (i + 4 + j) > UINT32_MAX" by (simp add: add.assoc)
    moreover have "sieve_lanes prime_bank (?g j) 0 \<noteq> 0" using fl j by simp
    ultimately show "\<not> is_prime_nat (unat (numbers ! (i + 4 + j)))" by (rule flagged_not_prime)
  qed
  have "verdicts_on numbers ?r1 (i + 4) (i + 4 + 4) = verdicts_on numbers results i (i + 8)"
    using verdicts_on_compose[of i "i + 4" "i + 8" numbers results] by (simp add: add.assoc)
  have "process_group numbers results i =
        (case resolve_lanes numbers ?flags1 results i 0 of
           None \<Rightarrow> None
         | Some results' \<Rightarrow> resolve_lanes numbers ?flags2 results' (i + 4) 0)"
    unfolding process_group_def Let_def flags_of_group using True by simp
  also have "\<dots> = Some (verdicts_on numbers ?r1 (i + 4) (i + 4 + 4))"
    using r1 r2 by simp
  finally show ?thesis using \<open>verdicts_on numbers ?r1 (i + 4) (i + 4 + 4) = verdicts_on numbers results i (i + 8)\<close>
    by simp
qed

lemma simd_loop_eq:
  "count \<le> length results \<Longrightarrow>
   simd_loop numbers results count i =
     Some (verdicts_on numbers results i (i + 8 * ((count - i) div 8)))"
proof (induction numbers results count i rule: simd_loop.induct)
  case (1 numbers results count i)
  show ?case
  proof (cases "i + 8 \<le> count")
    case True
    let ?r = "verdicts_on numbers results i (i + 8)"
    have g: "process_group numbers results i = Some ?r"
      using True "1.prems" by (intro process_group_eq) simp
    have "simd_loop numbers ?r count (i + 8) =
          Some (verdicts_on numbers ?r (i + 8) (i + 8 + 8 * ((count - (i + 8)) div 8)))"
      using True g "1.prems" by (intro "1.IH") simp_all
    moreover have "verdicts_on numbers ?r (i + 8) (i + 8 + 8 * ((count - (i + 8)) div 8)) =
                   verdicts_on numbers results i (i + 8 + 8 * ((count - (i + 8)) div 8))"
      by (rule verdicts_on_compose) simp_all
    moreover have "i + 8 + 8 * ((count - (i + 8)) div 8) = i + 8 * ((count - i) div 8)"
    proof -
      from True obtain k where k: "count = i + 8 + k" by (auto simp: le_iff_add)
      have "(8 + k) div 8 = 1 + k div 8" by simp
      thus ?thesis unfolding k by (simp add: add.commute)
    qed
    ultimately show ?thesis using True g by (subst simd_loop.simps) simp
  next
    case False
    hence "(count - i) div 8 = 0" by simp
    thus ?thesis using False by (subst simd_loop.simps) (simp add: verdicts_on_empty)
  qed
qed

lemma process_batch_eq:
  assumes "length results = length numbers"
  shows "process_batch_simd_real_8lane numbers results (length numbers) =
         Some (map (\<lambda>n. is_prime_nat (unat n)) numbers)"
proof -
  let ?count = "length numbers"
  let ?lo = "8 * (?count div 8)"
  let ?r = "verdicts_on numbers results 0 ?lo"
  have l: "simd_loop numbers results ?count 0 = Some ?r"
    using simd_loop_eq[of ?count results numbers 0] assms by simp
  have lo: "?count - ?count mod 8 = ?lo" by (simp add: minus_mod_eq_mult_div)
  have all: "verdicts_on numbers ?r ?lo ?count = map (\<lambda>n. is_prime_nat (unat n)) numbers"
    using verdicts_on_compose[of 0 ?lo ?count numbers results] verdicts_on_all[OF assms] by simp
  show ?thesis
  proof (cases "?count mod 8 = 0")
    case True
    hence "?lo = ?count" using lo by simp
    hence "?r = map (\<lambda>n. is_prime_nat (unat n)) numbers" using verdicts_on_all[OF assms] by simp
    thus ?thesis using True l by (simp add: process_batch_simd_real_8lane_def)
  next
    case False
    have "?lo + ?count mod 8 = ?count" by simp
    hence "process_scalar numbers ?r ?lo (?count mod 8) = Some (verdicts_on numbers ?r ?lo ?count)"
      using process_scalar_eq[of ?lo "?count mod 8" ?r numbers] assms by simp
    thus ?thesis using False l lo all by (simp add: process_batch_simd_real_8lane_def Let_def)
  qed
qed

lemma length_resize: "length (resize results n) = n"
  by (simp add: resize_def)

lemma process_eq: "process numbers results = Some (map (\<lambda>n. is_prime_nat (unat n)) numbers)"
proof (cases "length numbers \<ge> 16")
  case True
  thus ?thesis using process_batch_eq[of "resize results (length numbers)" numbers]
    by (simp add: process_def length_resize)
next
  case False
  have "process_scalar numbers (resize results (length numbers)) 0 (length numbers) =
        Some (verdicts_on numbers (resize results (length numbers)) 0 (0 + length numbers))"
    by (rule process_scalar_eq) (simp add: length_resize)
  thus ?thesis using False verdicts_on_all[of "resize results (length numbers)" numbers]
    by (simp add: process_def length_resize)
qed

section \<open>The registers as lists of lanes\<close>

lemma length_vst1q_u32 [simp]: "length (vst1q_u32 v) = 4"
  by (cases v rule: prod_cases4) simp

lemma length_lanes8 [simp]: "length (lanes8 v) = 8"
  by (simp add: lanes8_def)

lemma lanes8_barrett:
  "lanes8 (barrett_modq_u32_dual n_vec1 n_vec2 (vdupq_n_u32 m) (vdupq_n_u32 p)) =
     map (\<lambda>n. barrett_lane n m p) (lanes8 (n_vec1, n_vec2))"
  by (cases n_vec1 rule: prod_cases4, cases n_vec2 rule: prod_cases4)
     (simp add: barrett_dual_lanes lanes8_def)

lemma lanes8_sieve:
  "lanes8 (sieve n_vec1 n_vec2 (mask1, mask2) p) =
     map (\<lambda>(n, m). sieve_lane p n m) (zip (lanes8 (n_vec1, n_vec2)) (lanes8 (mask1, mask2)))"
  by (cases n_vec1 rule: prod_cases4, cases n_vec2 rule: prod_cases4,
      cases mask1 rule: prod_cases4, cases mask2 rule: prod_cases4)
     (simp add: sieve_tuple lanes8_def)

lemma lanes8_sieve_bank:
  "lanes8 (sieve_bank n_vec1 n_vec2) =
     map (\<lambda>n. sieve_lanes prime_bank n 0) (lanes8 (n_vec1, n_vec2))"
  by (cases n_vec1 rule: prod_cases4, cases n_vec2 rule: prod_cases4)
     (simp add: sieve_bank_tuple lanes8_def)

section \<open>The claims\<close>

text \<open>
  Claim C5. For every 64-bit \<open>n\<close>, \<open>is_prime_scalar\<close> returns, and what it returns is the
  verdict of the specification's trial division (below 2 not prime, 2 prime, other even
  numbers composite, else composite exactly if an odd \<open>d\<close> from 3 with \<open>d * d \<le> n\<close>
  divides \<open>n\<close>), which in turn is true exactly if \<open>n\<close> is a prime number. This includes the
  candidates close to \<open>2^64\<close>, where \<open>i * i\<close> wraps around and the loop runs on past the
  square root.
\<close>

theorem is_prime_scalar_is_trial_division:
  "is_prime_scalar n = Some (scalar_trial_division_spec (unat n)) \<and>
   scalar_trial_division_spec (unat n) = is_prime_nat (unat n)"
  by (simp add: is_prime_scalar_correct spec_is_prime)

theorem is_prime_scalar_is_trial_division_witness:
  "is_prime_scalar 97 = Some True \<and> scalar_trial_division_spec 97 \<and> is_prime_nat 97 \<and>
   is_prime_scalar 91 = Some False \<and> \<not> scalar_trial_division_spec 91 \<and> \<not> is_prime_nat 91"
proof -
  have e: "is_prime_scalar 97 = Some True" "is_prime_scalar 91 = Some False"
    by (simp_all add: is_prime_scalar_def trial_loop.simps)
  show ?thesis
    using is_prime_scalar_is_trial_division [of 97] is_prime_scalar_is_trial_division [of 91] e
    by auto
qed

text \<open>
  The loop returns from every state it can be in: \<open>n\<close> and \<open>i\<close> odd and \<open>i \<le> n\<close>.
  While it runs on, \<open>i\<close> does not divide \<open>n\<close>, so \<open>i < n\<close> and \<open>i + 2 \<le> n\<close> does not wrap;
  whether \<open>i * i\<close> wraps plays no part.
\<close>

lemma trial_loop_returns:
  fixes n i :: uint64
  assumes "odd (unat n)"
    and "odd (unat i)" "unat i \<le> unat n"
  shows "\<exists>b. trial_loop n i = Some b"
  using assms(2,3)
proof (induction "unat n - unat i" arbitrary: i rule: less_induct)
  case less
  show ?case
  proof (cases "i * i \<le> n")
    case False
    hence "trial_loop n i = Some True" by (subst trial_loop.simps) simp
    thus ?thesis by blast
  next
    case True
    show ?thesis
    proof (cases "n mod i = 0")
      case zero: True
      hence "trial_loop n i = Some False" using True by (subst trial_loop.simps) simp
      thus ?thesis by blast
    next
      case nz: False
      hence "unat n mod unat i \<noteq> 0" by (simp add: word_mod_zero_iff)
      hence "unat i \<noteq> unat n" by auto
      hence lt: "unat i < unat n" using less.prems by simp
      have le: "unat i + 2 \<le> unat n" using lt less.prems(1) assms(1) by presburger
      have u: "unat (i + 2) = unat i + 2" using le by (rule unat_plus2)
      have "\<exists>b. trial_loop n (i + 2) = Some b"
        using le less.prems lt by (intro less.hyps) (simp_all add: u)
      then obtain b where "trial_loop n (i + 2) = Some b" by blast
      hence "trial_loop n i = Some b" using True nz by (subst trial_loop.simps) simp
      thus ?thesis by blast
    qed
  qed
qed

text \<open>
  Claim C6. The engine is total. For every 64-bit candidate \<open>is_prime_scalar\<close> ends with a
  verdict, and its loop ends from every state with \<open>n\<close> and \<open>i\<close> odd and \<open>i \<le> n\<close>, also
  where \<open>i * i\<close> wraps around. On every input \<open>process\<close> returns a result that has one
  verdict for each candidate: it has the length of the input, and the slot at each index is
  the verdict \<open>is_prime_scalar\<close> ends with on the candidate at that index. The candidates
  0 and 1 are classified as not prime, by \<open>is_prime_scalar\<close> and by \<open>process\<close>.
\<close>

theorem engine_total:
  "(\<exists>b. is_prime_scalar n = Some b) \<and>
   (odd (unat m) \<and> odd (unat i) \<and> unat i \<le> unat m \<longrightarrow> (\<exists>b. trial_loop m i = Some b)) \<and>
   (\<exists>bs. process numbers results = Some bs \<and> length bs = length numbers \<and>
      (\<forall>k < length numbers. is_prime_scalar (numbers ! k) = Some (bs ! k))) \<and>
   is_prime_scalar 0 = Some False \<and> is_prime_scalar 1 = Some False \<and>
   process [0, 1] results = Some [False, False]"
proof -
  have z: "is_prime_scalar 0 = Some False" "is_prime_scalar 1 = Some False"
    by (simp_all add: is_prime_scalar_def)
  have p01: "process [0, 1] results = Some [False, False]"
    using z is_prime_scalar_correct [of 0] is_prime_scalar_correct [of 1]
      process_eq [of "[0, 1]" results] by simp
  have loop: "odd (unat m) \<and> odd (unat i) \<and> unat i \<le> unat m \<longrightarrow> (\<exists>b. trial_loop m i = Some b)"
    using trial_loop_returns [of m i] by blast
  show ?thesis using z p01 loop by (simp add: is_prime_scalar_correct process_eq)
qed

text \<open>
  An instance with a wrap: the loop at \<open>n = 2^64 - 59\<close> and \<open>i = 1215244570335492901\<close>, where
  \<open>i * i\<close> is above \<open>2^64\<close> and wraps to a value below \<open>n\<close>. The loop goes on to \<open>i + 2\<close>,
  whose square wraps to \<open>2^64 - 15\<close>, and returns \<open>true\<close> there.
\<close>

theorem engine_total_witness:
  "odd (unat (18446744073709551557 :: uint64)) \<and> odd (unat (1215244570335492901 :: uint64)) \<and>
   unat (1215244570335492901 :: uint64) \<le> unat (18446744073709551557 :: uint64) \<and>
   (2 :: nat) ^ 64 \<le> unat (1215244570335492901 :: uint64) * unat (1215244570335492901 :: uint64) \<and>
   (1215244570335492901 :: uint64) * 1215244570335492901 = 13585765792367579993 \<and>
   (\<exists>b. trial_loop 18446744073709551557 1215244570335492901 = Some b) \<and>
   trial_loop 18446744073709551557 1215244570335492901 = Some True \<and>
   is_prime_scalar 18446744073709551615 = Some False \<and>
   (\<exists>bs. process [0, 1, 18446744073709551615, 97] [True] = Some bs \<and> length bs = 4 \<and>
      \<not> bs ! 0 \<and> \<not> bs ! 1 \<and> \<not> bs ! 2 \<and> bs ! 3)"
proof -
  let ?m = "18446744073709551557 :: uint64" and ?i = "1215244570335492901 :: uint64"
  let ?numbers = "[0, 1, 18446744073709551615, 97 :: uint64]"
  have h: "odd (unat ?m) \<and> odd (unat ?i) \<and> unat ?i \<le> unat ?m" by simp
  have w: "(2 :: nat) ^ 64 \<le> unat ?i * unat ?i" "?i * ?i = 13585765792367579993" by simp_all
  have t: "trial_loop ?m ?i = Some True" by (simp add: trial_loop.simps)
  have e: "is_prime_scalar 0 = Some False" "is_prime_scalar 1 = Some False"
    "is_prime_scalar 18446744073709551615 = Some False" "is_prime_scalar 97 = Some True"
    by (simp_all add: is_prime_scalar_def trial_loop.simps)
  note inst = engine_total [of 18446744073709551615 ?m ?i ?numbers "[True]"]
  from inst h have r: "\<exists>b. trial_loop ?m ?i = Some b" by blast
  from inst obtain bs where bs: "process ?numbers [True] = Some bs" "length bs = length ?numbers"
    "\<forall>k < length ?numbers. is_prime_scalar (?numbers ! k) = Some (bs ! k)" by blast
  have "(0 :: nat) < length ?numbers" "(1 :: nat) < length ?numbers"
    "(2 :: nat) < length ?numbers" "(3 :: nat) < length ?numbers" by simp_all
  with bs(3) have "is_prime_scalar (?numbers ! 0) = Some (bs ! 0)"
    "is_prime_scalar (?numbers ! 1) = Some (bs ! 1)"
    "is_prime_scalar (?numbers ! 2) = Some (bs ! 2)"
    "is_prime_scalar (?numbers ! 3) = Some (bs ! 3)" by blast+
  hence v: "\<not> bs ! 0" "\<not> bs ! 1" "\<not> bs ! 2" "bs ! 3" using e by simp_all
  have l: "length bs = 4" using bs(2) by simp
  show ?thesis using h w r t e(3) bs(1) l v by blast
qed

text \<open>
  Claim C3. For every prime \<open>p\<close> of the bank and every 32-bit \<open>n\<close>, in each of the eight
  lanes, the remainder that \<open>barrett_modq_u32_dual\<close> returns (in wrapping 32-bit arithmetic)
  is zero exactly if \<open>p\<close> divides \<open>n\<close>. This holds also in the lanes where the estimated
  quotient is one too large and the returned value is not \<open>n mod p\<close>.
\<close>

theorem barrett_remainder_zero_iff_divides:
  "p \<in> set prime_bank \<Longrightarrow> k < 8 \<Longrightarrow>
   (lanes8 (barrett_modq_u32_dual n_vec1 n_vec2
              (vdupq_n_u32 (make_barrett_magic p)) (vdupq_n_u32 p)) ! k = 0) =
   (unat p dvd unat (lanes8 (n_vec1, n_vec2) ! k))"
  by (simp add: lanes8_barrett barrett_bank_zero_iff)

theorem barrett_remainder_zero_iff_divides_witness:
  "(3 :: uint32) \<in> set prime_bank \<and> (0 :: nat) < 8 \<and> (5 :: nat) < 8 \<and>
   lanes8 (barrett_modq_u32_dual (2147483648, 1, 2, 3) (4, 9, 4294967295, 4294967294)
             (vdupq_n_u32 (make_barrett_magic 3)) (vdupq_n_u32 3)) ! 0 \<noteq> 0 \<and>
   \<not> (3 :: nat) dvd 2147483648 \<and>
   lanes8 (barrett_modq_u32_dual (2147483648, 1, 2, 3) (4, 9, 4294967295, 4294967294)
             (vdupq_n_u32 (make_barrett_magic 3)) (vdupq_n_u32 3)) ! 5 = 0 \<and>
   (3 :: nat) dvd 9"
proof -
  have b: "(3 :: uint32) \<in> set prime_bank" by (simp add: prime_bank_def kSmallPrimes_def)
  have l: "lanes8 ((2147483648, 1, 2, 3), (4, 9, 4294967295, 4294967294)) ! 0 = 2147483648"
    "lanes8 ((2147483648, 1, 2, 3), (4, 9, 4294967295, 4294967294)) ! 5 = 9"
    by (simp_all add: lanes8_def)
  show ?thesis
    using barrett_remainder_zero_iff_divides [OF b, of 0 "(2147483648, 1, 2, 3)" "(4, 9, 4294967295, 4294967294)"]
      barrett_remainder_zero_iff_divides [OF b, of 5 "(2147483648, 1, 2, 3)" "(4, 9, 4294967295, 4294967294)"]
      b l
    by simp
qed

text \<open>
  Claim C4. Within one group pass the composite mask only grows: a call of the sieve lambda,
  for any prime and from any masks, leaves every flagged lane flagged (the old mask bits are
  OR-ed into the new ones). After the whole bank has been applied to the cleared masks, a
  lane is flagged exactly if some prime \<open>p\<close> of the bank divides the lane's candidate and the
  candidate is not \<open>p\<close> itself.
\<close>

theorem composite_mask_monotone_and_exact:
  "k < 8 \<Longrightarrow>
   (lanes8 (sieve n_vec1 n_vec2 masks prime) ! k OR lanes8 masks ! k =
      lanes8 (sieve n_vec1 n_vec2 masks prime) ! k) \<and>
   (lanes8 masks ! k \<noteq> 0 \<longrightarrow> lanes8 (sieve n_vec1 n_vec2 masks prime) ! k \<noteq> 0) \<and>
   (lanes8 (sieve_bank n_vec1 n_vec2) ! k \<noteq> 0 \<longleftrightarrow>
      (\<exists>p \<in> set prime_bank.
         unat p dvd unat (lanes8 (n_vec1, n_vec2) ! k) \<and> lanes8 (n_vec1, n_vec2) ! k \<noteq> p))"
proof -
  assume k: "k < 8"
  let ?n = "lanes8 (n_vec1, n_vec2) ! k" and ?m = "lanes8 masks ! k"
  have "lanes8 (sieve n_vec1 n_vec2 (fst masks, snd masks) prime) ! k = sieve_lane prime ?n ?m"
    using k by (simp only: lanes8_sieve) simp
  hence step: "lanes8 (sieve n_vec1 n_vec2 masks prime) ! k = sieve_lane prime ?n ?m" by simp
  have grow: "sieve_lane prime ?n ?m OR ?m = sieve_lane prime ?n ?m"
    by (simp add: sieve_lane_def ac_simps)
  have keep: "?m \<noteq> 0 \<longrightarrow> sieve_lane prime ?n ?m \<noteq> 0"
    by (simp add: sieve_lane_nonzero)
  have bank: "lanes8 (sieve_bank n_vec1 n_vec2) ! k = sieve_lanes prime_bank ?n 0"
    using k by (simp add: lanes8_sieve_bank)
  show ?thesis
    unfolding step bank using grow keep bank_flag_iff [of ?n] by blast
qed

theorem composite_mask_monotone_and_exact_witness:
  "(1 :: nat) < 8 \<and>
   lanes8 (sieve (2, 91, 3, 4) (5, 6, 7, 8) ((0, 5, 0, 0), (0, 0, 0, 0)) 3) ! 1 \<noteq> 0 \<and>
   lanes8 (sieve_bank (2, 91, 3, 4) (5, 6, 7, 8)) ! 1 \<noteq> 0 \<and>
   (\<exists>p \<in> set prime_bank. unat p dvd unat (91 :: uint32) \<and> 91 \<noteq> p)"
proof -
  have l: "lanes8 ((2, 91, 3, 4), (5, 6, 7, 8)) ! 1 = 91" "lanes8 ((0, 5, 0, 0), (0, 0, 0, 0)) ! 1 = 5"
    by (simp_all add: lanes8_def)
  have p: "(7 :: uint32) \<in> set prime_bank \<and> unat (7 :: uint32) dvd unat (91 :: uint32) \<and> (91 :: uint32) \<noteq> 7"
    by (simp add: prime_bank_def kSmallPrimes_def)
  hence ex: "\<exists>p \<in> set prime_bank. unat p dvd unat (91 :: uint32) \<and> 91 \<noteq> p" by blast
  show ?thesis
    using composite_mask_monotone_and_exact
      [of 1 "(2, 91, 3, 4)" "(5, 6, 7, 8)" "((0, 5, 0, 0), (0, 0, 0, 0))" 3] l ex
    by simp
qed

text \<open>
  Claim C2, evaluated at \<open>n = 2^31\<close> and \<open>p = 3\<close>. The magic constant is
  \<open>floor ((2^32 + 3 - 1) / 3) = 1431655766\<close>; the estimated quotient is
  \<open>715827883 = floor (n / 3) + 1\<close>, so \<open>n - q * p\<close> wraps around to \<open>2^32 - 1\<close>, and the
  one conditional subtraction leaves \<open>2^32 - 4\<close> in every lane, which is neither below \<open>p\<close>
  nor \<open>n mod p = 2\<close>.
\<close>

theorem barrett_remainder_at_2_31:
  "make_barrett_magic 3 = 1431655766 \<and>
   barrett_modq_u32_dual (vdupq_n_u32 2147483648) (vdupq_n_u32 2147483648)
     (vdupq_n_u32 (make_barrett_magic 3)) (vdupq_n_u32 3) =
     (vdupq_n_u32 4294967292, vdupq_n_u32 4294967292) \<and>
   \<not> (4294967292 :: uint32) < 3 \<and>
   (2147483648 :: nat) mod 3 = 2"
  by (simp add: make_barrett_magic_def barrett_modq_u32_dual_def vdupq_n_u32_def lane_mask_def)

text \<open>
  Claim C1. On every sequence of candidates, of any length and from any incoming result
  vector, \<open>process\<close> returns a sequence of verdicts that is, element by element and in the
  same order, what \<open>is_prime_scalar\<close> returns on each candidate; in particular on a
  one-element sequence.
\<close>

theorem process_agrees_with_scalar:
  "(\<exists>bs. process numbers results = Some bs \<and> map is_prime_scalar numbers = map Some bs) \<and>
   (\<exists>b. process [n] results = Some [b] \<and> is_prime_scalar n = Some b)"
  by (simp add: process_eq is_prime_scalar_correct)

theorem process_agrees_with_scalar_witness:
  "process [0, 1, 2, 3, 4, 5, 6, 7, 91, 97, 53, 49, 2147483648, 25, 121, 2809, 4294967301] [True] =
     Some [False, False, True, True, False, True, False, True, False, True, True, False,
           False, False, False, False, False] \<and>
   process [97] [] = Some [True]"
proof -
  have e: "map is_prime_scalar
             [0, 1, 2, 3, 4, 5, 6, 7, 91, 97, 53, 49, 2147483648, 25, 121, 2809, 4294967301] =
           map Some [False, False, True, True, False, True, False, True, False, True, True, False,
             False, False, False, False, False]"
    by (simp add: is_prime_scalar_def trial_loop.simps)
  have s: "is_prime_scalar 97 = Some True"
    by (simp add: is_prime_scalar_def trial_loop.simps)
  show ?thesis
    using process_agrees_with_scalar
      [of "[0, 1, 2, 3, 4, 5, 6, 7, 91, 97, 53, 49, 2147483648, 25, 121, 2809, 4294967301]"
          "[True]" 97]
      process_agrees_with_scalar [of "[97]" "[]" 97] e s
    by (auto simp: map_eq_Cons_conv)
qed

text \<open>
  Claim C10. For every input sequence, the empty one included, the output has the length
  of the input and the verdict at each index is the one of the candidate at that index;
  \<open>process([])\<close> is \<open>[]\<close>.
\<close>

theorem process_length_and_order:
  "(\<exists>bs. process numbers results = Some bs \<and> length bs = length numbers \<and>
      (\<forall>k < length numbers. is_prime_scalar (numbers ! k) = Some (bs ! k))) \<and>
   process [] results = Some []"
  by (simp add: process_eq is_prime_scalar_correct)

theorem process_length_and_order_witness:
  "(\<exists>bs. process [0, 1, 2, 3, 4] [True] = Some bs \<and> length bs = 5 \<and> bs ! 2 \<and> \<not> bs ! 4) \<and>
   process [] [True] = Some []"
proof -
  have e: "is_prime_scalar 2 = Some True" "is_prime_scalar 4 = Some False"
    by (simp_all add: is_prime_scalar_def)
  from process_length_and_order [of "[0, 1, 2, 3, 4]" "[True]"]
  obtain bs where bs: "process [0, 1, 2, 3, 4] [True] = Some bs" "length bs = 5"
    "\<forall>k < 5. is_prime_scalar ([0, 1, 2, 3, 4] ! k) = Some (bs ! k)"
    and nil: "process [] [True] = Some []" by auto
  have "(2 :: nat) < 5" "(4 :: nat) < 5" by simp_all
  with bs(3) have "is_prime_scalar ([0, 1, 2, 3, 4] ! 2) = Some (bs ! 2)"
    "is_prime_scalar ([0, 1, 2, 3, 4] ! 4) = Some (bs ! 4)" by blast+
  hence "bs ! 2" "\<not> bs ! 4" using e by simp_all
  thus ?thesis using bs nil by blast
qed

section \<open>Bank entries, the range guard and the scalar-only paths\<close>

lemma bank_entries_prime:
  assumes "p \<in> set prime_bank"
  shows "is_prime_nat (unat p)"
proof -
  have s: "is_prime_scalar 2 = Some True" "is_prime_scalar 3 = Some True"
    "is_prime_scalar 5 = Some True" "is_prime_scalar 7 = Some True"
    "is_prime_scalar 11 = Some True" "is_prime_scalar 13 = Some True"
    "is_prime_scalar 17 = Some True" "is_prime_scalar 19 = Some True"
    "is_prime_scalar 23 = Some True" "is_prime_scalar 29 = Some True"
    "is_prime_scalar 31 = Some True" "is_prime_scalar 37 = Some True"
    "is_prime_scalar 41 = Some True" "is_prime_scalar 43 = Some True"
    "is_prime_scalar 47 = Some True" "is_prime_scalar 53 = Some True"
    by (simp_all add: is_prime_scalar_def trial_loop.simps)
  have "p \<in> {2, 3, 5, 7, 11, 13, 17, 19, 23, 29, 31, 37, 41, 43, 47, 53}"
    using assms by (simp add: prime_bank_def kSmallPrimes_def kExtendedPrimes_def)
  thus ?thesis
    using s is_prime_scalar_correct [of 2] is_prime_scalar_correct [of 3]
      is_prime_scalar_correct [of 5] is_prime_scalar_correct [of 7]
      is_prime_scalar_correct [of 11] is_prime_scalar_correct [of 13]
      is_prime_scalar_correct [of 17] is_prime_scalar_correct [of 19]
      is_prime_scalar_correct [of 23] is_prime_scalar_correct [of 29]
      is_prime_scalar_correct [of 31] is_prime_scalar_correct [of 37]
      is_prime_scalar_correct [of 41] is_prime_scalar_correct [of 43]
      is_prime_scalar_correct [of 47] is_prime_scalar_correct [of 53]
    by (elim insertE emptyE) simp_all
qed

lemma bank_entry_unflagged:
  assumes "p \<in> set prime_bank"
  shows "sieve_lanes prime_bank p 0 = 0"
proof (rule ccontr)
  assume "sieve_lanes prime_bank p 0 \<noteq> 0"
  then obtain q where q: "q \<in> set prime_bank" "unat q dvd unat p" "p \<noteq> q"
    by (auto simp: bank_flag_iff)
  have "unat p \<noteq> unat q" using q(3) by (simp add: word_unat_eq_iff)
  with q(2) bank_ge2 [OF q(1)] have "\<not> is_prime_nat (unat p)" by (rule divisor_not_prime)
  thus False using bank_entries_prime [OF assms] by simp
qed

lemma guard_fails:
  assumes "j < 8" "numbers ! (i + j) > UINT32_MAX"
  shows "\<not> can_use_neon numbers i"
proof
  assume "can_use_neon numbers i"
  hence "\<not> numbers ! (i + j) > UINT32_MAX" using assms(1) by (rule can_use_neon_nth)
  thus False using assms(2) by simp
qed

lemma simd_loop_keeps_tail:
  assumes "count \<le> length results" "k < length results" "count - count mod 8 \<le> k"
  shows "\<exists>r. simd_loop numbers results count 0 = Some r \<and> length r = length results \<and>
             r ! k = results ! k"
proof -
  have "count - count mod 8 = 8 * (count div 8)" by (simp add: minus_mod_eq_mult_div)
  hence "\<not> k < 0 + 8 * ((count - 0) div 8)" using assms(3) by simp
  thus ?thesis using simd_loop_eq [OF assms(1), of numbers 0] assms(2)
    by (simp add: nth_verdicts_on)
qed

text \<open>
  Claim C7. A candidate equal to an entry of the prime bank is classified prime at every
  position of every input, whichever path handles it: \<open>process\<close> puts \<open>true\<close> at its index,
  \<open>is_prime_scalar\<close> returns \<open>true\<close> on it, and in the vector pass its lane is still unflagged
  after the whole bank.
\<close>

theorem bank_entry_classified_prime:
  "p \<in> set prime_bank \<Longrightarrow>
   (k < length numbers \<and> numbers ! k = ucast p \<longrightarrow>
      (\<exists>bs. process numbers results = Some bs \<and> bs ! k)) \<and>
   (j < 8 \<and> lanes8 (n_vec1, n_vec2) ! j = p \<longrightarrow> lanes8 (sieve_bank n_vec1 n_vec2) ! j = 0) \<and>
   is_prime_scalar (ucast p) = Some True"
  by (simp add: process_eq is_prime_scalar_correct unat_ucast_32_64 bank_entries_prime
        lanes8_sieve_bank bank_entry_unflagged)

theorem bank_entry_classified_prime_witness:
  "(53 :: uint32) \<in> set prime_bank \<and> (3 :: nat) < 8 \<and>
   3 < length [0, 1, 2, 53, 4, 5, 6, 7, 8, 9, 10, 11, 12, 13, 14, 15, 16 :: uint64] \<and>
   (\<exists>bs. process [0, 1, 2, 53, 4, 5, 6, 7, 8, 9, 10, 11, 12, 13, 14, 15, 16] [] = Some bs \<and> bs ! 3) \<and>
   lanes8 (sieve_bank (0, 1, 2, 53) (4, 5, 6, 7)) ! 3 = 0 \<and>
   is_prime_scalar 53 = Some True"
proof -
  have b: "(53 :: uint32) \<in> set prime_bank"
    by (simp add: prime_bank_def kSmallPrimes_def kExtendedPrimes_def)
  have l: "lanes8 ((0, 1, 2, 53), (4, 5, 6, 7)) ! 3 = 53" by (simp add: lanes8_def)
  show ?thesis
    using bank_entry_classified_prime
      [OF b, of 3 "[0, 1, 2, 53, 4, 5, 6, 7, 8, 9, 10, 11, 12, 13, 14, 15, 16]" "[]"
         3 "(0, 1, 2, 53)" "(4, 5, 6, 7)"] b l
    by simp
qed

text \<open>
  Claim C8. If any of the eight candidates of a group is above \<open>UINT32_MAX\<close>, the group
  iteration is exactly the scalar loop over those eight slots; it returns a result (no
  error), leaves the length of the array alone, and every slot of the group, for the large
  and the small candidates alike, holds the scalar verdict, which is the true primality.
\<close>

theorem range_guard_group_scalar:
  "j < 8 \<Longrightarrow> numbers ! (i + j) > UINT32_MAX \<Longrightarrow> i + 8 \<le> length results \<Longrightarrow>
   process_group numbers results i = process_scalar numbers results i 8 \<and>
   (\<exists>r. process_group numbers results i = Some r \<and> length r = length results \<and>
      (\<forall>k < 8. is_prime_scalar (numbers ! (i + k)) = Some (r ! (i + k)) \<and>
                r ! (i + k) = is_prime_nat (unat (numbers ! (i + k)))))"
proof -
  assume j: "j < 8" "numbers ! (i + j) > UINT32_MAX" and len: "i + 8 \<le> length results"
  have g: "process_group numbers results i = process_scalar numbers results i 8"
    using guard_fails [OF j] by (simp add: process_group_def)
  have "\<forall>k < 8. verdicts_on numbers results i (i + 8) ! (i + k) =
          is_prime_nat (unat (numbers ! (i + k)))"
    using len by (simp add: nth_verdicts_on)
  thus ?thesis
    unfolding g using process_scalar_eq [OF len, of numbers]
    by (simp add: is_prime_scalar_correct)
qed

theorem range_guard_group_scalar_witness:
  "(1 :: nat) < 8 \<and> [3, 4294967301, 5, 6, 7, 8, 9, 18446744073709551615] ! (0 + 1) > UINT32_MAX \<and>
   0 + 8 \<le> length [True, True, True, True, True, True, True, True] \<and>
   process_group [3, 4294967301, 5, 6, 7, 8, 9, 18446744073709551615] [True, True, True, True, True, True, True, True] 0 =
     Some [True, False, True, False, True, False, False, False]"
proof -
  have h: "(1 :: nat) < 8"
    "[3, 4294967301, 5, 6, 7, 8, 9, 18446744073709551615] ! (0 + 1) > UINT32_MAX"
    "0 + 8 \<le> length [True, True, True, True, True, True, True, True]"
    by (simp_all add: UINT32_MAX_def)
  have e: "process_scalar [3, 4294967301, 5, 6, 7, 8, 9, 18446744073709551615] [True, True, True, True, True, True, True, True] 0 8 =
             Some [True, False, True, False, True, False, False, False]"
    by (simp add: process_scalar_def process_scalar_loop.simps is_prime_scalar_def
          trial_loop.simps)
  show ?thesis
    using range_guard_group_scalar [OF h] h e by simp
qed




end
